theory Spec2Isabelle
  imports Main "HOL-Library.Multiset"
begin

section \<open>Miller-Rabin primality test (verify\_quadruplets.py)\<close>

text \<open>
  Python's three-argument \<open>pow(b, e, m)\<close> on integers with \<open>e \<ge> 0\<close> and \<open>m > 0\<close> is
  \<open>b ** e % m\<close>. Every call in the scripts has a non-negative exponent and a positive
  modulus (the modulus is \<open>n \<ge> 5\<close> or \<open>283\<close>, the exponent an odd positive \<open>d\<close>, \<open>2\<close>,
  \<open>47\<close> or \<open>281\<close>).
\<close>

definition pow3 :: "int \<Rightarrow> int \<Rightarrow> int \<Rightarrow> int" where
  "pow3 b e m = (b ^ nat e) mod m"

text \<open>Square-and-multiply, used only to evaluate \<open>pow3\<close> on concrete numbers.\<close>

function modpow :: "int \<Rightarrow> int \<Rightarrow> int \<Rightarrow> int" where
  "modpow b e m =
     (if e \<le> 0 then 1 mod m
      else let h = modpow b (e div 2) m; s = (h * h) mod m
           in if e mod 2 = 0 then s else (s * b) mod m)"
  by pat_completeness auto
termination
  by (relation "measure (\<lambda>(b, e, m). nat e)") auto

declare modpow.simps [simp del]

text \<open>
  \<open>r, d = 0, n - 1; while d % 2 == 0: r += 1; d //= 2\<close>. The loop does not return for
  \<open>d = 0\<close>, so it is a partial function: \<open>None\<close> is "does not return".
\<close>

partial_function (option) decompose :: "int \<Rightarrow> int \<Rightarrow> (int \<times> int) option" where
  "decompose r d = (if d mod 2 = 0 then decompose (r + 1) (d div 2) else Some (r, d))"

declare decompose.simps [code]

text \<open>
  \<open>for _ in range(r - 1): x = pow(x, 2, n); if x == n - 1: break\<close> with its \<open>else\<close>
  branch: \<open>True\<close> when the loop left through \<open>break\<close>, \<open>False\<close> when it ran out (the
  \<open>else: return False\<close> of the source).
\<close>

fun square_loop :: "nat \<Rightarrow> int \<Rightarrow> int \<Rightarrow> bool" where
  "square_loop 0 x n = False"
| "square_loop (Suc c) x n =
     (let x' = pow3 x 2 n in if x' = n - 1 then True else square_loop c x' n)"

definition witnesses :: "int list" where
  "witnesses = [2, 3, 5, 7, 11, 13, 17, 19, 23, 29, 31, 37]"

text \<open>\<open>for a in witnesses: ...\<close>; the result is the value the function returns.\<close>

fun witness_loop :: "int list \<Rightarrow> int \<Rightarrow> int \<Rightarrow> int \<Rightarrow> bool" where
  "witness_loop [] n r d = True"
| "witness_loop (a # as) n r d =
     (if a \<ge> n then witness_loop as n r d
      else let x = pow3 a d n
           in if x = 1 \<or> x = n - 1 then witness_loop as n r d
              else if square_loop (nat (r - 1)) x n then witness_loop as n r d
              else False)"

definition is_probable_prime :: "int \<Rightarrow> 'k \<Rightarrow> bool option" where
  "is_probable_prime n k =
     (if n < 2 then Some False
      else if n = 2 \<or> n = 3 then Some True
      else if n mod 2 = 0 then Some False
      else case decompose 0 (n - 1) of
             None \<Rightarrow> None
           | Some (r, d) \<Rightarrow> Some (witness_loop witnesses n r d))"

definition Q :: "int \<Rightarrow> int" where
  "Q n = n ^ 47 - (n - 1) ^ 47"

text \<open>
  CPython (3.11 and later, and the security releases of 3.7 to 3.10) bounds the conversion
  of an integer to a decimal string: \<open>str(v)\<close> and the formatting \<open>f"{v:,}"\<close> raise
  \<open>ValueError\<close> when \<open>v\<close> has more than \<open>sys.get_int_max_str_digits()\<close> digits, 4300 unless
  the interpreter is configured otherwise. \<open>int_to_str\<close> is the conversion as far as it
  matters here: it raises or it passes.
\<close>

datatype py_error = ValueError

definition int_max_str_digits :: nat where
  "int_max_str_digits = 4300"

definition int_to_str :: "int \<Rightarrow> py_error + unit" where
  "int_to_str v = (if \<bar>v\<bar> < 10 ^ int_max_str_digits then Inr () else Inl ValueError)"

text \<open>
  The \<open>for offset in range(4)\<close> loop that fills \<open>results\<close>: \<open>q = Q(n)\<close>,
  \<open>is_prime = is_probable_prime(q)\<close>, \<open>digits = len(str(q))\<close>, and the \<open>print\<close> that formats
  \<open>n\<close>. \<open>None\<close> is "does not return", \<open>Some (Inl e)\<close> is "raises \<open>e\<close>".
\<close>

fun quadruplet_results :: "int \<Rightarrow> int list \<Rightarrow> (py_error + bool list) option" where
  "quadruplet_results start_n [] = Some (Inr [])"
| "quadruplet_results start_n (offset # offsets) =
     (let n = start_n + offset; q = Q n in
      case is_probable_prime q (20 :: int) of
        None \<Rightarrow> None
      | Some is_prime \<Rightarrow>
          (case int_to_str q of
             Inl e \<Rightarrow> Some (Inl e)
           | Inr _ \<Rightarrow>
               (case int_to_str n of
                  Inl e \<Rightarrow> Some (Inl e)
                | Inr _ \<Rightarrow>
                    (case quadruplet_results start_n offsets of
                       None \<Rightarrow> None
                     | Some (Inl e) \<Rightarrow> Some (Inl e)
                     | Some (Inr results) \<Rightarrow> Some (Inr (is_prime # results))))))"

text \<open>
  \<open>verify_quadruplet\<close>, in the order of the source: the first \<open>print\<close> formats \<open>start_n\<close>;
  the loop; the two boundary verdicts; the \<open>print\<close> calls that format \<open>start_n - 1\<close> and
  \<open>start_n + 4\<close>; then \<open>all(results) and not before_prime and not after_prime\<close>. What the
  \<open>print\<close> calls write is not modelled, only whether their formatting raises.
\<close>

definition verify_quadruplet :: "int \<Rightarrow> (py_error + bool) option" where
  "verify_quadruplet start_n =
     (case int_to_str start_n of
        Inl e \<Rightarrow> Some (Inl e)
      | Inr _ \<Rightarrow>
     (case quadruplet_results start_n [0, 1, 2, 3] of
        None \<Rightarrow> None
      | Some (Inl e) \<Rightarrow> Some (Inl e)
      | Some (Inr results) \<Rightarrow>
     (case is_probable_prime (Q (start_n - 1)) (20 :: int) of
        None \<Rightarrow> None
      | Some before_prime \<Rightarrow>
     (case is_probable_prime (Q (start_n + 4)) (20 :: int) of
        None \<Rightarrow> None
      | Some after_prime \<Rightarrow>
     (case int_to_str (start_n - 1) of
        Inl e \<Rightarrow> Some (Inl e)
      | Inr _ \<Rightarrow>
     (case int_to_str (start_n + 4) of
        Inl e \<Rightarrow> Some (Inl e)
      | Inr _ \<Rightarrow>
          Some (Inr (list_all (\<lambda>b. b) results \<and> \<not> before_prime \<and> \<not> after_prime))))))))"

section \<open>Run detection, gaps and residues (analyze\_primes.py)\<close>

text \<open>
  The inner loop shared by \<open>find_ktuples\<close> and \<open>find_all_clusters\<close>:
  \<open>while i + 1 < len(n_values) and n_values[i+1] == n_values[i] + 1: run_len += 1; i += 1\<close>.
  It returns the final \<open>i\<close> and \<open>run_len\<close>. The index \<open>i\<close> starts at 0 and only grows, so it
  is a natural number; Python's \<open>and\<close> reads \<open>n_values[i+1]\<close> only when \<open>i + 1\<close> is in
  range, and the conjunction is false there whatever the read gives.
\<close>

function extend_run :: "int list \<Rightarrow> nat \<Rightarrow> int \<Rightarrow> nat \<times> int" where
  "extend_run n_values i run_len =
     (if i + 1 < length n_values \<and> n_values ! (i + 1) = n_values ! i + 1
      then extend_run n_values (i + 1) (run_len + 1)
      else (i, run_len))"
  by pat_completeness auto
termination
  by (relation "measure (\<lambda>(n_values, i, run_len). length n_values - i)") auto

declare extend_run.simps [simp del]

lemma extend_run_index: "extend_run n_values i run_len = (j, l) \<Longrightarrow> i \<le> j"
proof (induction n_values i run_len rule: extend_run.induct)
  case (1 n_values i run_len)
  show ?case
  proof (cases "i + 1 < length n_values \<and> n_values ! (i + 1) = n_values ! i + 1")
    case True
    with "1.prems" have "extend_run n_values (i + 1) (run_len + 1) = (j, l)"
      by (subst (asm) extend_run.simps) simp
    from "1.IH" [OF True this] show ?thesis by simp
  next
    case False
    have "extend_run n_values i run_len = (i, run_len)"
      using False by (subst extend_run.simps) auto
    with "1.prems" show ?thesis by simp
  qed
qed

lemma extend_run_index_sym: "(j, l) = extend_run n_values i run_len \<Longrightarrow> i \<le> j"
  using extend_run_index [of n_values i run_len j l] by simp

text \<open>The outer \<open>while i < len(n_values)\<close> loop of \<open>find_ktuples\<close>.\<close>

function ktuples_loop :: "int list \<Rightarrow> int \<Rightarrow> nat \<Rightarrow> int list \<Rightarrow> int list" where
  "ktuples_loop n_values k i ktuples =
     (if i < length n_values then
        (let run_start = n_values ! i;
             (i', run_len) = extend_run n_values i 1;
             ktuples' = (if run_len = k then ktuples @ [run_start]
                         else if run_len > k then ktuples
                         else ktuples)
         in ktuples_loop n_values k (i' + 1) ktuples')
      else ktuples)"
  by pat_completeness auto
termination
  by (relation "measure (\<lambda>(n_values, k, i, ktuples). length n_values - i)")
    (auto dest!: extend_run_index_sym)

declare ktuples_loop.simps [simp del]

definition find_ktuples :: "int list \<Rightarrow> int \<Rightarrow> int list" where
  "find_ktuples n_values k = ktuples_loop n_values k 0 []"

text \<open>The outer loop of \<open>find_all_clusters\<close>.\<close>

function clusters_loop :: "int list \<Rightarrow> nat \<Rightarrow> (int \<times> int) list \<Rightarrow> (int \<times> int) list" where
  "clusters_loop n_values i clusters =
     (if i < length n_values then
        (let run_start = n_values ! i;
             (i', run_len) = extend_run n_values i 1;
             clusters' = (if run_len \<ge> 2 then clusters @ [(run_start, run_len)] else clusters)
         in clusters_loop n_values (i' + 1) clusters')
      else clusters)"
  by pat_completeness auto
termination
  by (relation "measure (\<lambda>(n_values, i, clusters). length n_values - i)")
    (auto dest!: extend_run_index_sym)

declare clusters_loop.simps [simp del]

definition find_all_clusters :: "int list \<Rightarrow> (int \<times> int) list" where
  "find_all_clusters n_values = clusters_loop n_values 0 []"

text \<open>\<open>for i in range(1, len(n_values)): gaps.append(n_values[i] - n_values[i-1])\<close>\<close>

definition compute_gaps :: "int list \<Rightarrow> int list" where
  "compute_gaps n_values = map (\<lambda>i. n_values ! i - n_values ! (i - 1)) [1..<length n_values]"

text \<open>
  \<open>max(gaps)\<close> of \<open>main\<close>: Python's \<open>max\<close> raises \<open>ValueError\<close> on an empty list. The median
  and the mean of \<open>main\<close> are numpy floating point and are not modelled.
\<close>

definition py_max :: "int list \<Rightarrow> py_error + int" where
  "py_max xs = (case xs of [] \<Rightarrow> Inl ValueError | y # ys \<Rightarrow> Inr (fold max ys y))"

definition max_gap :: "int list \<Rightarrow> py_error + int" where
  "max_gap n_values = py_max (compute_gaps n_values)"

text \<open>
  \<open>analyze_residues_mod_283\<close>. \<open>roots_of_unity = [x for x in range(1, p) if pow(x, 47, p) == 1]\<close>,
  then the loop that fills the set \<open>forbidden\<close>. The same lines stand in
  \<open>create_fig2_residue\<close> of generate\_figures.py.
\<close>

definition roots_of_unity :: "int \<Rightarrow> int list" where
  "roots_of_unity p = filter (\<lambda>x. pow3 x 47 p = 1) [1..p - 1]"

fun forbidden_loop :: "int \<Rightarrow> int list \<Rightarrow> int set \<Rightarrow> int set" where
  "forbidden_loop p [] forbidden = forbidden"
| "forbidden_loop p (r # rs) forbidden =
     (if r \<noteq> 1 then
        (let inv = pow3 (r - 1) (p - 2) p;
             n_forb = (r * inv) mod p
         in forbidden_loop p rs (insert n_forb forbidden))
      else forbidden_loop p rs forbidden)"

definition forbidden_residues :: "int \<Rightarrow> int set" where
  "forbidden_residues p = forbidden_loop p (roots_of_unity p) {}"

text \<open>
  \<open>Counter(residues)\<close> is a dictionary from each residue that occurs to the number of its
  occurrences; \<open>hist.get(r, 0)\<close> reads it with the default 0.
\<close>

definition Counter :: "int list \<Rightarrow> (int \<rightharpoonup> int)" where
  "Counter xs = (\<lambda>r. if r \<in> set xs then Some (int (count_list xs r)) else None)"

definition dict_get :: "('k \<rightharpoonup> 'v) \<Rightarrow> 'k \<Rightarrow> 'v \<Rightarrow> 'v" where
  "dict_get m key dflt = (case m key of None \<Rightarrow> dflt | Some v \<Rightarrow> v)"

record residue_report =
  total_primes :: int
  forbidden_residue_count :: int
  primes_in_forbidden :: int
  verification :: string

definition analyze_residues_mod_283 :: "int list \<Rightarrow> residue_report" where
  "analyze_residues_mod_283 n_values =
     (let p = 283;
          forbidden = forbidden_residues p;
          residues = map (\<lambda>n. n mod p) n_values;
          hist = Counter residues;
          forbidden_count = (\<Sum>r\<in>forbidden. dict_get hist r 0)
      in \<lparr> total_primes = int (length n_values),
           forbidden_residue_count = int (card forbidden),
           primes_in_forbidden = forbidden_count,
           verification = (if forbidden_count = 0 then ''PASS'' else ''FAIL'') \<rparr>)"

section \<open>Vocabulary of the properties\<close>

text \<open>
  A maximal run of a set of integers: \<open>L \<ge> 1\<close> consecutive integers from \<open>s\<close>, all in the
  set, with neither neighbour \<open>s - 1\<close> nor \<open>s + L\<close> in it.
\<close>

definition maximal_run :: "int set \<Rightarrow> int \<Rightarrow> int \<Rightarrow> bool" where
  "maximal_run S s L = (1 \<le> L \<and> {s..s + L - 1} \<subseteq> S \<and> s - 1 \<notin> S \<and> s + L \<notin> S)"

text \<open>A run \<open>(start, length)\<close> expanded to its consecutive integers.\<close>

definition expand_run :: "int \<times> int \<Rightarrow> int list" where
  "expand_run c = [fst c..fst c + snd c - 1]"

definition expand_runs :: "(int \<times> int) list \<Rightarrow> int list" where
  "expand_runs cs = concat (map expand_run cs)"

text \<open>The elements of the sequence that no run covers.\<close>

definition unclustered :: "int list \<Rightarrow> (int \<times> int) list \<Rightarrow> int list" where
  "unclustered n_values cs = filter (\<lambda>n. n \<notin> set (expand_runs cs)) n_values"

text \<open>
  Used in the proofs only: how many elements of \<open>ys\<close> continue a run whose last element is
  \<open>x\<close>, and the run-length encoding of a whole list.
\<close>

fun run_ext :: "int \<Rightarrow> int list \<Rightarrow> nat" where
  "run_ext x [] = 0"
| "run_ext x (y # ys) = (if y = x + 1 then Suc (run_ext y ys) else 0)"

function runs_of :: "int list \<Rightarrow> (int \<times> int) list" where
  "runs_of [] = []"
| "runs_of (x # ys) = (x, 1 + int (run_ext x ys)) # runs_of (drop (run_ext x ys) ys)"
  by pat_completeness auto
termination
  by (relation "measure length") auto

section \<open>Evaluation of the modular power\<close>

lemma modpow_eq: "modpow b e m = (b ^ nat e) mod m"
proof (induction b e m rule: modpow.induct)
  case (1 b e m)
  show ?case
  proof (cases "e \<le> 0")
    case True
    then show ?thesis by (simp add: modpow.simps)
  next
    case False
    define h where "h = e div 2"
    have h0: "0 \<le> h" using False by (simp add: h_def)
    have ih: "modpow b h m = (b ^ nat h) mod m"
      using 1 False by (simp add: h_def)
    have "(b ^ nat h mod m * (b ^ nat h mod m)) mod m = (b ^ nat h * b ^ nat h) mod m"
      by (rule mod_mult_eq)
    then have sq: "(modpow b h m * modpow b h m) mod m = (b ^ (nat h + nat h)) mod m"
      by (simp only: ih power_add)
    have unf: "modpow b e m =
        (if e mod 2 = 0 then (modpow b h m * modpow b h m) mod m
         else ((modpow b h m * modpow b h m) mod m * b) mod m)"
      using False by (subst modpow.simps) (simp only: h_def Let_def if_False)
    show ?thesis
    proof (cases "e mod 2 = 0")
      case True
      then have "e = h + h" unfolding h_def by presburger
      then have "nat e = nat h + nat h" using h0 by simp
      then show ?thesis
        using True sq unf by simp
    next
      case odd: False
      then have "e = h + h + 1" unfolding h_def by presburger
      then have e: "nat e = Suc (nat h + nat h)" using h0 by simp
      have "((b ^ (nat h + nat h)) mod m * b) mod m = (b ^ (nat h + nat h) * b) mod m"
        by (rule mod_mult_left_eq)
      then have "((modpow b h m * modpow b h m) mod m * b) mod m = (b ^ nat e) mod m"
        by (simp only: sq e power_Suc mult.commute)
      then show ?thesis
        using odd unf by simp
    qed
  qed
qed

lemma pow3_code [code]: "pow3 b e m = modpow b e m"
  by (simp add: pow3_def modpow_eq)

section \<open>The primality test returns, and what it returns\<close>

lemma decompose_returns: "d \<noteq> 0 \<Longrightarrow> \<exists>r' d'. decompose r d = Some (r', d')"
proof (induction "nat \<bar>d\<bar>" arbitrary: r d rule: less_induct)
  case less
  show ?case
  proof (cases "d mod 2 = 0")
    case True
    with less.prems have nz: "d div 2 \<noteq> 0" by presburger
    from True obtain q where q: "d = 2 * q"
      by (auto elim: evenE simp: even_iff_mod_2_eq_zero)
    have "nat \<bar>d div 2\<bar> < nat \<bar>d\<bar>" using less.prems by (simp add: q)
    from less.hyps [OF this nz, of "r + 1"] True show ?thesis
      by (subst decompose.simps) simp
  next
    case False
    then show ?thesis by (subst decompose.simps) simp
  qed
qed

lemma is_probable_prime_returns: "\<exists>b. is_probable_prime n k = Some b"
proof (cases "n < 2 \<or> n = 2 \<or> n = 3 \<or> n mod 2 = 0")
  case True
  then show ?thesis by (auto simp: is_probable_prime_def)
next
  case False
  then have "n - 1 \<noteq> 0" by simp
  from decompose_returns [OF this, of 0] obtain r d where "decompose 0 (n - 1) = Some (r, d)"
    by blast
  with False show ?thesis by (simp add: is_probable_prime_def)
qed

lemma quadruplet_results_step:
  assumes "is_probable_prime (Q (s + a)) (20 :: int) = Some p"
  shows "quadruplet_results s (a # as) =
     (if \<bar>Q (s + a)\<bar> < 10 ^ int_max_str_digits \<and> \<bar>s + a\<bar> < 10 ^ int_max_str_digits
      then (case quadruplet_results s as of
              None \<Rightarrow> None
            | Some (Inl e) \<Rightarrow> Some (Inl e)
            | Some (Inr results) \<Rightarrow> Some (Inr (p # results)))
      else Some (Inl ValueError))"
  using assms by (simp add: Let_def int_to_str_def)

lemma quadruplet_results_4:
  assumes "is_probable_prime (Q (s + a)) (20 :: int) = Some pa"
    and "is_probable_prime (Q (s + b)) (20 :: int) = Some pb"
    and "is_probable_prime (Q (s + c)) (20 :: int) = Some pc"
    and "is_probable_prime (Q (s + d)) (20 :: int) = Some pd"
  shows "quadruplet_results s [a, b, c, d] =
     (if list_all (\<lambda>v. \<bar>v\<bar> < 10 ^ int_max_str_digits)
           [Q (s + a), s + a, Q (s + b), s + b, Q (s + c), s + c, Q (s + d), s + d]
      then Some (Inr [pa, pb, pc, pd]) else Some (Inl ValueError))"
  by (simp only: quadruplet_results_step [OF assms(1)] quadruplet_results_step [OF assms(2)]
        quadruplet_results_step [OF assms(3)] quadruplet_results_step [OF assms(4)]
        quadruplet_results.simps(1))
    (simp)

lemma verify_quadruplet_exact:
  "verify_quadruplet s =
     (if list_all (\<lambda>v. \<bar>v\<bar> < 10 ^ int_max_str_digits)
           [s, Q (s + 0), s + 0, Q (s + 1), s + 1, Q (s + 2), s + 2, Q (s + 3), s + 3, s - 1, s + 4]
      then Some (Inr (is_probable_prime (Q s) (20 :: int) = Some True
         \<and> is_probable_prime (Q (s + 1)) (20 :: int) = Some True
         \<and> is_probable_prime (Q (s + 2)) (20 :: int) = Some True
         \<and> is_probable_prime (Q (s + 3)) (20 :: int) = Some True
         \<and> is_probable_prime (Q (s - 1)) (20 :: int) = Some False
         \<and> is_probable_prime (Q (s + 4)) (20 :: int) = Some False))
      else Some (Inl ValueError))"
proof -
  obtain p0 where p0: "is_probable_prime (Q (s + 0)) (20 :: int) = Some p0"
    using is_probable_prime_returns [of "Q (s + 0)" "20 :: int"] by blast
  obtain p1 where p1: "is_probable_prime (Q (s + 1)) (20 :: int) = Some p1"
    using is_probable_prime_returns [of "Q (s + 1)" "20 :: int"] by blast
  obtain p2 where p2: "is_probable_prime (Q (s + 2)) (20 :: int) = Some p2"
    using is_probable_prime_returns [of "Q (s + 2)" "20 :: int"] by blast
  obtain p3 where p3: "is_probable_prime (Q (s + 3)) (20 :: int) = Some p3"
    using is_probable_prime_returns [of "Q (s + 3)" "20 :: int"] by blast
  obtain pb where pb: "is_probable_prime (Q (s - 1)) (20 :: int) = Some pb"
    using is_probable_prime_returns [of "Q (s - 1)" "20 :: int"] by blast
  obtain pa where pa: "is_probable_prime (Q (s + 4)) (20 :: int) = Some pa"
    using is_probable_prime_returns [of "Q (s + 4)" "20 :: int"] by blast
  have p0': "is_probable_prime (Q s) (20 :: int) = Some p0" using p0 by simp
  define ok where "ok = (\<lambda>v :: int. \<bar>v\<bar> < 10 ^ int_max_str_digits)"
  have str: "int_to_str v = (if ok v then Inr () else Inl ValueError)" for v
    by (simp add: int_to_str_def ok_def)
  have res: "quadruplet_results s [0, 1, 2, 3] =
     (if list_all ok [Q (s + 0), s + 0, Q (s + 1), s + 1, Q (s + 2), s + 2, Q (s + 3), s + 3]
      then Some (Inr [p0, p1, p2, p3]) else Some (Inl ValueError))"
    unfolding ok_def by (rule quadruplet_results_4 [OF p0 p1 p2 p3])
  show ?thesis
    unfolding verify_quadruplet_def res str ok_def [symmetric]
    by (simp add: p0' p1 p2 p3 pb pa)
qed

lemma Q_lower_gen: "1 \<le> (n :: int) \<Longrightarrow> n ^ k \<le> n ^ Suc k - (n - 1) ^ Suc k"
proof -
  assume n: "1 \<le> n"
  then have "(n - 1) ^ k \<le> n ^ k" by (intro power_mono) simp_all
  then have "(n - 1) * (n - 1) ^ k \<le> (n - 1) * n ^ k"
    using n by (intro mult_left_mono) simp_all
  moreover have "n * n ^ k - (n - 1) * n ^ k = n ^ k" by (simp add: algebra_simps)
  ultimately show ?thesis by simp
qed

lemma Q_lower: "1 \<le> n \<Longrightarrow> n ^ 46 \<le> Q n"
proof -
  assume "1 \<le> n"
  then have "n ^ 46 \<le> n ^ Suc 46 - (n - 1) ^ Suc 46" by (rule Q_lower_gen)
  moreover have "Suc 46 = 47" by simp
  ultimately show ?thesis by (simp only: Q_def)
qed

lemma verify_quadruplet_raises:
  assumes s: "1 \<le> s" and big: "10 ^ int_max_str_digits \<le> s ^ 46"
  shows "verify_quadruplet s = Some (Inl ValueError)"
proof -
  from Q_lower [OF s] big have "10 ^ int_max_str_digits \<le> Q s" by (rule order_trans [rotated])
  then have "\<not> \<bar>Q (s + 0)\<bar> < 10 ^ int_max_str_digits" by simp
  then have "\<not> list_all (\<lambda>v. \<bar>v\<bar> < 10 ^ int_max_str_digits)
      [s, Q (s + 0), s + 0, Q (s + 1), s + 1, Q (s + 2), s + 2, Q (s + 3), s + 3, s - 1, s + 4]"
    by (simp only: list.pred_inject simp_thms)
  then show ?thesis
    by (simp only: verify_quadruplet_exact if_False)
qed

text \<open>
  C1, as claimed: for every integer \<open>s\<close>, \<open>verify_quadruplet s\<close> returns the boolean that is
  true exactly when the six checks hold. At \<open>s = 10^94\<close> it returns no boolean: \<open>Q s\<close> has
  more than 4300 decimal digits, and \<open>digits = len(str(q))\<close> raises \<open>ValueError\<close> in the
  first round of the loop.
\<close>

theorem verify_quadruplet_huge_counterexample:
  "verify_quadruplet (10 ^ 94) = Some (Inl ValueError)"
proof (rule verify_quadruplet_raises)
  show "(1 :: int) \<le> 10 ^ 94" by simp
next
  have "((10 :: int) ^ 94) ^ 46 = 10 ^ (94 * 46)" by (rule power_mult [symmetric])
  moreover have "(10 :: int) ^ int_max_str_digits \<le> 10 ^ (94 * 46)"
    by (rule power_increasing) (simp_all add: int_max_str_digits_def)
  ultimately show "(10 :: int) ^ int_max_str_digits \<le> (10 ^ 94) ^ 46" by (simp only:)
qed

lemma Q_abs_bound:
  assumes a: "\<bar>n\<bar> \<le> 10 ^ a" and b: "\<bar>n - 1\<bar> \<le> 10 ^ a" and d: "Suc (a * 47) \<le> d"
  shows "\<bar>Q n\<bar> < 10 ^ d"
proof -
  have "\<bar>Q n\<bar> \<le> \<bar>n ^ 47\<bar> + \<bar>(n - 1) ^ 47\<bar>"
    unfolding Q_def by (rule abs_triangle_ineq4)
  also have "\<bar>n ^ 47\<bar> = \<bar>n\<bar> ^ 47" by (rule power_abs)
  also have "\<bar>(n - 1) ^ 47\<bar> = \<bar>n - 1\<bar> ^ 47" by (rule power_abs)
  also have "\<bar>n\<bar> ^ 47 + \<bar>n - 1\<bar> ^ 47 \<le> (10 ^ a) ^ 47 + (10 ^ a) ^ 47"
    by (intro add_mono power_mono a b) simp_all
  also have "((10 :: int) ^ a) ^ 47 = 10 ^ (a * 47)" by (rule power_mult [symmetric])
  also have "(10 :: int) ^ (a * 47) + 10 ^ (a * 47) < 10 ^ Suc (a * 47)" by simp
  also have "(10 :: int) ^ Suc (a * 47) \<le> 10 ^ d"
    using d by (intro power_increasing) simp_all
  finally show ?thesis .
qed

lemma small_within_limit:
  assumes "\<bar>v :: int\<bar> \<le> 10 ^ 91"
  shows "\<bar>v\<bar> < 10 ^ int_max_str_digits"
proof -
  have "(10 :: int) ^ 91 < 10 ^ int_max_str_digits"
    by (rule power_strict_increasing) (simp_all add: int_max_str_digits_def)
  with assms show ?thesis by (rule order_le_less_trans)
qed

lemma Q_within_limit:
  assumes "\<bar>n\<bar> \<le> 10 ^ 91" and "\<bar>n - 1\<bar> \<le> 10 ^ 91"
  shows "\<bar>Q n\<bar> < 10 ^ int_max_str_digits"
  using assms by (rule Q_abs_bound) (simp add: int_max_str_digits_def)

text \<open>
  C1, amended: for every integer \<open>s\<close>, \<open>verify_quadruplet s\<close> either raises \<open>ValueError\<close>,
  exactly when one of the integers it converts to decimal (\<open>s\<close>, \<open>s - 1\<close>, \<open>s + 4\<close>, and
  \<open>s + i\<close> and \<open>Q (s + i)\<close> for \<open>i\<close> from 0 to 3) has more than 4300 digits, or returns the
  boolean that is true exactly when the six checks hold: \<open>Q s\<close>, \<open>Q (s + 1)\<close>, \<open>Q (s + 2)\<close>,
  \<open>Q (s + 3)\<close> are each classified prime by \<open>is_probable_prime\<close>, and \<open>Q (s - 1)\<close> and
  \<open>Q (s + 4)\<close> are each classified composite. It returns that boolean for every \<open>s\<close> with
  \<open>|s| + 4 \<le> 10^91\<close>.
\<close>

theorem verify_quadruplet_verdict_or_error:
  "verify_quadruplet s =
     (if list_all (\<lambda>v. \<bar>v\<bar> < 10 ^ int_max_str_digits)
           [s, Q (s + 0), s + 0, Q (s + 1), s + 1, Q (s + 2), s + 2, Q (s + 3), s + 3, s - 1, s + 4]
      then Some (Inr (is_probable_prime (Q s) (20 :: int) = Some True
         \<and> is_probable_prime (Q (s + 1)) (20 :: int) = Some True
         \<and> is_probable_prime (Q (s + 2)) (20 :: int) = Some True
         \<and> is_probable_prime (Q (s + 3)) (20 :: int) = Some True
         \<and> is_probable_prime (Q (s - 1)) (20 :: int) = Some False
         \<and> is_probable_prime (Q (s + 4)) (20 :: int) = Some False))
      else Some (Inl ValueError))
   \<and> (\<bar>s\<bar> + 4 \<le> 10 ^ 91 \<longrightarrow>
        verify_quadruplet s =
          Some (Inr (is_probable_prime (Q s) (20 :: int) = Some True
             \<and> is_probable_prime (Q (s + 1)) (20 :: int) = Some True
             \<and> is_probable_prime (Q (s + 2)) (20 :: int) = Some True
             \<and> is_probable_prime (Q (s + 3)) (20 :: int) = Some True
             \<and> is_probable_prime (Q (s - 1)) (20 :: int) = Some False
             \<and> is_probable_prime (Q (s + 4)) (20 :: int) = Some False)))"
proof (intro conjI impI)
  show "verify_quadruplet s =
     (if list_all (\<lambda>v. \<bar>v\<bar> < 10 ^ int_max_str_digits)
           [s, Q (s + 0), s + 0, Q (s + 1), s + 1, Q (s + 2), s + 2, Q (s + 3), s + 3, s - 1, s + 4]
      then Some (Inr (is_probable_prime (Q s) (20 :: int) = Some True
         \<and> is_probable_prime (Q (s + 1)) (20 :: int) = Some True
         \<and> is_probable_prime (Q (s + 2)) (20 :: int) = Some True
         \<and> is_probable_prime (Q (s + 3)) (20 :: int) = Some True
         \<and> is_probable_prime (Q (s - 1)) (20 :: int) = Some False
         \<and> is_probable_prime (Q (s + 4)) (20 :: int) = Some False))
      else Some (Inl ValueError))"
    by (rule verify_quadruplet_exact)
next
  assume small: "\<bar>s\<bar> + 4 \<le> 10 ^ 91"
  define ok where "ok = (\<lambda>v :: int. \<bar>v\<bar> < 10 ^ int_max_str_digits)"
  have le: "\<bar>s + i\<bar> \<le> 10 ^ 91" if "-1 \<le> i" "i \<le> 4" for i
    using small that by linarith
  have v: "ok (s + i)" if "-1 \<le> i" "i \<le> 4" for i
    unfolding ok_def using le [OF that] by (rule small_within_limit)
  have q: "ok (Q (s + i))" if "0 \<le> i" "i \<le> 4" for i
  proof -
    have "\<bar>s + i\<bar> \<le> 10 ^ 91" using that by (intro le) simp_all
    moreover have "\<bar>s + i - 1\<bar> \<le> 10 ^ 91" using le [of "i - 1"] that by simp
    ultimately show ?thesis unfolding ok_def by (rule Q_within_limit)
  qed
  have "ok s" using v [of 0] by simp
  moreover have "ok (s - 1)" using v [of "-1"] by simp
  moreover note v [of 0] v [of 1] v [of 2] v [of 3] v [of 4] q [of 0] q [of 1] q [of 2] q [of 3]
  ultimately have "list_all ok
      [s, Q (s + 0), s + 0, Q (s + 1), s + 1, Q (s + 2), s + 2, Q (s + 3), s + 3, s - 1, s + 4]"
    by simp
  then show "verify_quadruplet s =
          Some (Inr (is_probable_prime (Q s) (20 :: int) = Some True
             \<and> is_probable_prime (Q (s + 1)) (20 :: int) = Some True
             \<and> is_probable_prime (Q (s + 2)) (20 :: int) = Some True
             \<and> is_probable_prime (Q (s + 3)) (20 :: int) = Some True
             \<and> is_probable_prime (Q (s - 1)) (20 :: int) = Some False
             \<and> is_probable_prime (Q (s + 4)) (20 :: int) = Some False))"
    unfolding verify_quadruplet_exact ok_def by (simp only: if_True)
qed

text \<open>
  C1 at \<open>s = 1\<close>: \<open>Q 1 = 1\<close> is classified composite, so the verdict is \<open>False\<close>.
\<close>

theorem verify_quadruplet_verdict_or_error_witness:
  "\<bar>1 :: int\<bar> + 4 \<le> 10 ^ 91 \<and> verify_quadruplet 1 = Some (Inr False)"
proof -
  have h: "\<bar>1 :: int\<bar> + 4 \<le> 10 ^ 91" by simp
  have q1: "is_probable_prime (Q 1) (20 :: int) = Some False"
    by (simp add: Q_def is_probable_prime_def)
  from verify_quadruplet_verdict_or_error [of 1, THEN conjunct2] h
  have "verify_quadruplet 1 =
          Some (Inr (is_probable_prime (Q 1) (20 :: int) = Some True
             \<and> is_probable_prime (Q (1 + 1)) (20 :: int) = Some True
             \<and> is_probable_prime (Q (1 + 2)) (20 :: int) = Some True
             \<and> is_probable_prime (Q (1 + 3)) (20 :: int) = Some True
             \<and> is_probable_prime (Q (1 - 1)) (20 :: int) = Some False
             \<and> is_probable_prime (Q (1 + 4)) (20 :: int) = Some False))"
    by (rule mp)
  with q1 h show ?thesis by (simp only: option.inject simp_thms)
qed

text \<open>
  C2. The four spot checks of the primality test with the fixed witness list: 561 is
  classified composite, 104729 prime, 1 composite and 2 prime.
\<close>

theorem is_probable_prime_spot_checks:
  "is_probable_prime 561 (20 :: int) = Some False
   \<and> is_probable_prime 104729 (20 :: int) = Some True
   \<and> is_probable_prime 1 (20 :: int) = Some False
   \<and> is_probable_prime 2 (20 :: int) = Some True"
  by code_simp

text \<open>
  C6, as claimed: the primality test fails with an error on an operand below 2. The code
  returns the ordinary verdict \<open>False\<close> there: at the operand 0 the first guard
  \<open>if n < 2: return False\<close> decides.
\<close>

theorem is_probable_prime_below_two_counterexample:
  "is_probable_prime 0 (20 :: int) = Some False"
  by (simp add: is_probable_prime_def)

text \<open>
  C6, amended: on every operand below 2 the primality test returns the ordinary verdict
  \<open>False\<close> (composite), whatever its second argument; it raises nothing.
\<close>

theorem is_probable_prime_below_two:
  "n < 2 \<Longrightarrow> is_probable_prime n k = Some False"
  by (simp add: is_probable_prime_def)

theorem is_probable_prime_below_two_witness:
  "(-5 :: int) < 2 \<and> is_probable_prime (-5) (20 :: int) = Some False"
  using is_probable_prime_below_two [of "-5" "20 :: int"] by simp

text \<open>
  C9. The second parameter \<open>k\<close> of \<open>is_probable_prime\<close> has no effect: for every \<open>n\<close> and
  any two values \<open>k1\<close>, \<open>k2\<close> (of any types) the results agree, and the result is the one
  the witness loop computes from \<open>n\<close> and the fixed list of 12 witnesses.
\<close>

theorem is_probable_prime_ignores_k:
  "is_probable_prime n k1 = is_probable_prime n k2
   \<and> is_probable_prime n k1 =
       (if n < 2 then Some False
        else if n = 2 \<or> n = 3 then Some True
        else if n mod 2 = 0 then Some False
        else map_option (\<lambda>(r, d). witness_loop [2, 3, 5, 7, 11, 13, 17, 19, 23, 29, 31, 37] n r d)
               (decompose 0 (n - 1)))
   \<and> length witnesses = 12"
  by (simp add: is_probable_prime_def witnesses_def split: option.splits)

section \<open>Residues modulo 283\<close>

lemma finite_forbidden_loop: "finite F \<Longrightarrow> finite (forbidden_loop p rs F)"
  by (induction rs arbitrary: F) (simp_all add: Let_def)

lemma finite_forbidden_residues: "finite (forbidden_residues p)"
  by (simp add: forbidden_residues_def finite_forbidden_loop)

lemma dict_get_Counter: "dict_get (Counter ys) r 0 = int (count_list ys r)"
  by (simp add: dict_get_def Counter_def count_list_0_iff)

lemma sum_count_list:
  "finite F \<Longrightarrow> (\<Sum>r\<in>F. int (count_list ys r)) = int (length (filter (\<lambda>y. y \<in> F) ys))"
proof (induction ys)
  case Nil
  then show ?case by simp
next
  case (Cons y ys)
  have "(\<Sum>r\<in>F. int (count_list (y # ys) r))
      = (\<Sum>r\<in>F. int (count_list ys r) + (if y = r then 1 else 0))"
    by (rule sum.cong) simp_all
  also have "\<dots> = (\<Sum>r\<in>F. int (count_list ys r)) + (\<Sum>r\<in>F. if y = r then 1 else 0)"
    by (rule sum.distrib)
  also have "(\<Sum>r\<in>F. if y = r then 1 else 0) = (if y \<in> F then 1 else (0::int))"
    using Cons.prems by simp
  finally show ?case using Cons by simp
qed

lemma primes_in_forbidden_count:
  "primes_in_forbidden (analyze_residues_mod_283 n_values)
     = int (length (filter (\<lambda>n. n mod 283 \<in> forbidden_residues 283) n_values))"
proof -
  have "(\<Sum>r\<in>forbidden_residues 283. dict_get (Counter (map (\<lambda>n. n mod 283) n_values)) r 0)
      = int (length (filter (\<lambda>y. y \<in> forbidden_residues 283) (map (\<lambda>n. n mod 283) n_values)))"
    by (simp only: dict_get_Counter sum_count_list [OF finite_forbidden_residues])
  also have "\<dots> = int (length (filter (\<lambda>n. n mod 283 \<in> forbidden_residues 283) n_values))"
    by (simp add: filter_map o_def)
  finally show ?thesis
    by (simp add: analyze_residues_mod_283_def Let_def)
qed

text \<open>
  C7. For every input sequence the \<open>verification\<close> field of the residue classification is
  \<open>PASS\<close> exactly when the number of elements whose residue modulo 283 lies in the
  forbidden set is zero, and \<open>FAIL\<close> exactly when that number is not zero.
\<close>

theorem verification_pass_iff_no_forbidden:
  "(verification (analyze_residues_mod_283 n_values) = ''PASS'')
      = (length (filter (\<lambda>n. n mod 283 \<in> forbidden_residues 283) n_values) = 0)
   \<and> (verification (analyze_residues_mod_283 n_values) = ''FAIL'')
      = (length (filter (\<lambda>n. n mod 283 \<in> forbidden_residues 283) n_values) \<noteq> 0)"
proof -
  have v: "verification (analyze_residues_mod_283 n_values)
      = (if primes_in_forbidden (analyze_residues_mod_283 n_values) = 0 then ''PASS'' else ''FAIL'')"
    by (simp add: analyze_residues_mod_283_def Let_def)
  show ?thesis
    unfolding v primes_in_forbidden_count by simp
qed

lemma roots_of_unity_283:
  "roots_of_unity 283 =
     [1, 4, 15, 16, 29, 38, 42, 51, 54, 60, 61, 64, 66, 71, 78, 86, 106, 111,
      116, 127, 134, 141, 151, 152, 155, 158, 161, 163, 168, 175, 181, 199, 204,
      207, 216, 225, 230, 240, 244, 250, 251, 253, 256, 262, 264, 275, 281]"
  by code_simp

lemma forbidden_loop_eq:
  "forbidden_loop p rs F
     = F \<union> set (map (\<lambda>r. (r * pow3 (r - 1) (p - 2) p) mod p) (filter (\<lambda>r. r \<noteq> 1) rs))"
  by (induction rs arbitrary: F) (auto simp: Let_def)

lemma forbidden_residues_eq:
  "forbidden_residues p
     = set (map (\<lambda>r. (r * pow3 (r - 1) (p - 2) p) mod p) (filter (\<lambda>r. r \<noteq> 1) (roots_of_unity p)))"
  by (simp add: forbidden_residues_def forbidden_loop_eq)

lemma forbidden_images_283:
  "map (\<lambda>r. (r * pow3 (r - 1) (283 - 2) 283) mod 283) (filter (\<lambda>r. r \<noteq> 1) (roots_of_unity 283))
     = [190, 183, 152, 92, 154, 215, 18, 268, 25, 251, 10, 210, 94, 137, 11, 63,
        266, 33, 147, 184, 189, 101, 16, 69, 138, 24, 146, 223, 136, 273, 274,
        238, 148, 130, 260, 132, 46, 192, 259, 61, 74, 193, 91, 100, 221, 95]"
  unfolding roots_of_unity_283 by code_simp

text \<open>
  C10. The forbidden set computed for the modulus 283 and the exponent 47 has exactly 46
  elements, one for each of the 46 roots of unity other than 1 (the map from a root \<open>r\<close>
  to \<open>r * (r - 1)^281 mod 283\<close> takes 46 distinct values on them), 0 is not among them,
  and 46 is the \<open>forbidden_residue_count\<close> the analysis reports for every input.
\<close>

theorem forbidden_residues_283_card:
  "card (forbidden_residues 283) = 46
   \<and> 0 \<notin> forbidden_residues 283
   \<and> length (filter (\<lambda>r. r \<noteq> 1) (roots_of_unity 283)) = 46
   \<and> distinct (map (\<lambda>r. (r * pow3 (r - 1) (283 - 2) 283) mod 283)
                  (filter (\<lambda>r. r \<noteq> 1) (roots_of_unity 283)))
   \<and> forbidden_residues 283
       = set (map (\<lambda>r. (r * pow3 (r - 1) (283 - 2) 283) mod 283)
                (filter (\<lambda>r. r \<noteq> 1) (roots_of_unity 283)))
   \<and> forbidden_residue_count (analyze_residues_mod_283 n_values) = 46"
proof -
  have e: "forbidden_residues 283
       = set (map (\<lambda>r. (r * pow3 (r - 1) (283 - 2) 283) mod 283)
                (filter (\<lambda>r. r \<noteq> 1) (roots_of_unity 283)))"
    by (rule forbidden_residues_eq [of 283])
  have d: "distinct (map (\<lambda>r. (r * pow3 (r - 1) (283 - 2) 283) mod 283)
                  (filter (\<lambda>r. r \<noteq> 1) (roots_of_unity 283)))"
    unfolding forbidden_images_283 by simp
  have c: "card (forbidden_residues 283) = 46"
    unfolding forbidden_residues_eq forbidden_images_283 by simp
  have z: "0 \<notin> forbidden_residues 283"
    unfolding forbidden_residues_eq forbidden_images_283 by simp
  have l: "length (filter (\<lambda>r. r \<noteq> 1) (roots_of_unity 283)) = 46"
    unfolding roots_of_unity_283 by simp
  have f: "forbidden_residue_count (analyze_residues_mod_283 n_values) = 46"
    by (simp add: analyze_residues_mod_283_def Let_def c)
  from c z l d e f show ?thesis by blast
qed

section \<open>The loops as a run-length encoding\<close>

lemma run_ext_outside:
  "\<not> (i + 1 < length xs \<and> xs ! (i + 1) = xs ! i + 1) \<Longrightarrow> run_ext (xs ! i) (drop (Suc i) xs) = 0"
proof (cases "Suc i < length xs")
  case True
  assume a: "\<not> (i + 1 < length xs \<and> xs ! (i + 1) = xs ! i + 1)"
  from True have "drop (Suc i) xs = xs ! Suc i # drop (Suc (Suc i)) xs"
    by (simp add: Cons_nth_drop_Suc)
  with a True show ?thesis by simp
next
  case False
  then show ?thesis by simp
qed

lemma extend_run_eq:
  "extend_run xs i l =
     (i + run_ext (xs ! i) (drop (Suc i) xs), l + int (run_ext (xs ! i) (drop (Suc i) xs)))"
proof (induction xs i l rule: extend_run.induct)
  case (1 xs i l)
  show ?case
  proof (cases "i + 1 < length xs \<and> xs ! (i + 1) = xs ! i + 1")
    case True
    then have "Suc i < length xs" by simp
    then have d: "drop (Suc i) xs = xs ! Suc i # drop (Suc (Suc i)) xs"
      by (simp add: Cons_nth_drop_Suc)
    have "extend_run xs i l = extend_run xs (i + 1) (l + 1)"
      using True by (subst extend_run.simps) simp
    with "1.IH" [OF True] True d show ?thesis by simp
  next
    case False
    have "extend_run xs i l = (i, l)"
      using False by (subst extend_run.simps) auto
    with run_ext_outside [OF False] show ?thesis by simp
  qed
qed

lemma clusters_loop_step:
  assumes "i < length xs"
  shows "clusters_loop xs i acc =
     clusters_loop xs (i + run_ext (xs ! i) (drop (Suc i) xs) + 1)
       (if 2 \<le> 1 + int (run_ext (xs ! i) (drop (Suc i) xs))
        then acc @ [(xs ! i, 1 + int (run_ext (xs ! i) (drop (Suc i) xs)))] else acc)"
  using assms by (subst clusters_loop.simps) (simp add: extend_run_eq Let_def)

lemma clusters_loop_done: "\<not> i < length xs \<Longrightarrow> clusters_loop xs i acc = acc"
  by (subst clusters_loop.simps) simp

lemma ktuples_loop_step:
  assumes "i < length xs"
  shows "ktuples_loop xs k i acc =
     ktuples_loop xs k (i + run_ext (xs ! i) (drop (Suc i) xs) + 1)
       (if 1 + int (run_ext (xs ! i) (drop (Suc i) xs)) = k then acc @ [xs ! i] else acc)"
  using assms by (subst ktuples_loop.simps) (simp add: extend_run_eq Let_def)

lemma ktuples_loop_done: "\<not> i < length xs \<Longrightarrow> ktuples_loop xs k i acc = acc"
  by (subst ktuples_loop.simps) simp

lemma runs_of_drop:
  assumes "i < length xs"
  shows "runs_of (drop i xs) =
     (xs ! i, 1 + int (run_ext (xs ! i) (drop (Suc i) xs)))
       # runs_of (drop (i + run_ext (xs ! i) (drop (Suc i) xs) + 1) xs)"
proof -
  have "drop i xs = xs ! i # drop (Suc i) xs"
    using assms by (simp add: Cons_nth_drop_Suc)
  then show ?thesis by (simp add: add.commute)
qed

lemma clusters_loop_eq:
  "clusters_loop xs i acc = acc @ filter (\<lambda>(s, L). 2 \<le> L) (runs_of (drop i xs))"
proof (induction "length xs - i" arbitrary: i acc rule: less_induct)
  case less
  show ?case
  proof (cases "i < length xs")
    case True
    define e where "e = run_ext (xs ! i) (drop (Suc i) xs)"
    have "length xs - (i + e + 1) < length xs - i" using True by simp
    from less.hyps [OF this] clusters_loop_step [OF True, of acc] runs_of_drop [OF True]
    show ?thesis by (simp add: e_def)
  next
    case False
    then show ?thesis by (simp add: clusters_loop_done)
  qed
qed

lemma ktuples_loop_eq:
  "ktuples_loop xs k i acc = acc @ map fst (filter (\<lambda>(s, L). L = k) (runs_of (drop i xs)))"
proof (induction "length xs - i" arbitrary: i acc rule: less_induct)
  case less
  show ?case
  proof (cases "i < length xs")
    case True
    define e where "e = run_ext (xs ! i) (drop (Suc i) xs)"
    have "length xs - (i + e + 1) < length xs - i" using True by simp
    from less.hyps [OF this] ktuples_loop_step [OF True, of k acc] runs_of_drop [OF True]
    show ?thesis by (simp add: e_def)
  next
    case False
    then show ?thesis by (simp add: ktuples_loop_done)
  qed
qed

lemma find_all_clusters_runs_of:
  "find_all_clusters xs = filter (\<lambda>(s, L). 2 \<le> L) (runs_of xs)"
  by (simp add: find_all_clusters_def clusters_loop_eq)

lemma find_ktuples_runs_of:
  "find_ktuples xs k = map fst (filter (\<lambda>(s, L). L = k) (runs_of xs))"
  by (simp add: find_ktuples_def ktuples_loop_eq)

section \<open>Maximal runs of a sorted sequence\<close>

lemma take_run_ext: "take (run_ext x ys) ys = [x + 1..x + int (run_ext x ys)]"
proof (induction ys arbitrary: x)
  case Nil
  then show ?case by simp
next
  case (Cons y ys)
  show ?case
  proof (cases "y = x + 1")
    case True
    define n where "n = run_ext y ys"
    have a: "x + int (run_ext x (y # ys)) = y + int n"
      using True by (simp add: n_def)
    have b: "take (run_ext x (y # ys)) (y # ys) = y # take n ys"
      using True by (simp add: n_def)
    have c: "[y..y + int n] = y # [y + 1..y + int n]"
      by (subst upto_rec1) simp_all
    have "take n ys = [y + 1..y + int n]"
      unfolding n_def by (rule Cons)
    with a b c have "take (run_ext x (y # ys)) (y # ys) = [y..x + int (run_ext x (y # ys))]"
      by simp
    with True show ?thesis by simp
  next
    case False
    then show ?thesis by simp
  qed
qed

lemma drop_run_ext_bound:
  "sorted_wrt (<) (x # ys) \<Longrightarrow> r \<in> set (drop (run_ext x ys) ys) \<Longrightarrow> x + int (run_ext x ys) + 2 \<le> r"
proof (induction ys arbitrary: x)
  case Nil
  then show ?case by simp
next
  case (Cons y ys)
  show ?case
  proof (cases "y = x + 1")
    case True
    from Cons.prems have "sorted_wrt (<) (y # ys)" by simp
    moreover from Cons.prems True have "r \<in> set (drop (run_ext y ys) ys)" by simp
    ultimately have "y + int (run_ext y ys) + 2 \<le> r" by (rule Cons.IH)
    with True show ?thesis by simp
  next
    case False
    with Cons.prems show ?thesis by auto
  qed
qed

lemma set_split_run:
  "set (x # ys) = {x..x + int (run_ext x ys)} \<union> set (drop (run_ext x ys) ys)"
proof -
  have "set ys = set (take (run_ext x ys) ys) \<union> set (drop (run_ext x ys) ys)"
    by (metis append_take_drop_id set_append)
  also have "set (take (run_ext x ys) ys) = {x + 1..x + int (run_ext x ys)}"
    by (simp add: take_run_ext)
  finally show ?thesis by auto
qed

lemma maximal_run_split:
  assumes far: "\<And>r. r \<in> R \<Longrightarrow> x + e + 2 \<le> r" and e: "0 \<le> e"
  shows "maximal_run ({x..x + e} \<union> R) s L = ((s = x \<and> L = e + 1) \<or> maximal_run R s L)"
proof
  assume m: "maximal_run ({x..x + e} \<union> R) s L"
  then have L: "1 \<le> L" and sub: "{s..s + L - 1} \<subseteq> {x..x + e} \<union> R"
    and lo: "s - 1 \<notin> {x..x + e} \<union> R" and hi: "s + L \<notin> {x..x + e} \<union> R"
    by (simp_all add: maximal_run_def)
  from L have "s \<in> {s..s + L - 1}" by simp
  with sub have s_in: "s \<in> {x..x + e} \<union> R" by blast
  have gap: "x + e + 1 \<notin> {x..x + e} \<union> R" using far [of "x + e + 1"] by auto
  show "(s = x \<and> L = e + 1) \<or> maximal_run R s L"
  proof (cases "s \<in> R")
    case True
    then have sb: "x + e + 2 \<le> s" by (rule far)
    have "{s..s + L - 1} \<subseteq> R"
    proof
      fix t assume t: "t \<in> {s..s + L - 1}"
      with sub have "t \<in> {x..x + e} \<union> R" by blast
      moreover from t sb have "t \<notin> {x..x + e}" by simp
      ultimately show "t \<in> R" by blast
    qed
    with L lo hi have "maximal_run R s L" by (simp add: maximal_run_def)
    then show ?thesis ..
  next
    case False
    with s_in have sx: "x \<le> s" "s \<le> x + e" by auto
    have "s = x"
    proof (rule ccontr)
      assume "s \<noteq> x"
      with sx have "s - 1 \<in> {x..x + e}" by simp
      with lo show False by blast
    qed
    moreover have "L = e + 1"
    proof (rule ccontr)
      assume ne: "L \<noteq> e + 1"
      show False
      proof (cases "L \<le> e")
        case True
        with L \<open>s = x\<close> have "s + L \<in> {x..x + e}" by simp
        with hi show False by blast
      next
        case False
        with ne have "e + 2 \<le> L" by simp
        with \<open>s = x\<close> e have "x + e + 1 \<in> {s..s + L - 1}" by simp
        with sub gap show False by blast
      qed
    qed
    ultimately show ?thesis by simp
  qed
next
  assume "(s = x \<and> L = e + 1) \<or> maximal_run R s L"
  then show "maximal_run ({x..x + e} \<union> R) s L"
  proof
    assume "s = x \<and> L = e + 1"
    moreover have "x - 1 \<notin> R" using far [of "x - 1"] e by auto
    moreover have "x + e + 1 \<notin> R" using far [of "x + e + 1"] by auto
    ultimately show ?thesis using e by (simp add: maximal_run_def add.assoc)
  next
    assume m: "maximal_run R s L"
    then have L: "1 \<le> L" and sub: "{s..s + L - 1} \<subseteq> R"
      and lo: "s - 1 \<notin> R" and hi: "s + L \<notin> R"
      by (simp_all add: maximal_run_def)
    from L have "s \<in> {s..s + L - 1}" by simp
    with sub have "s \<in> R" by blast
    then have "x + e + 2 \<le> s" by (rule far)
    with L sub lo hi show ?thesis by (auto simp: maximal_run_def)
  qed
qed

lemma runs_of_set:
  "sorted_wrt (<) xs \<Longrightarrow> (s, L) \<in> set (runs_of xs) \<longleftrightarrow> maximal_run (set xs) s L"
proof (induction xs arbitrary: s L rule: runs_of.induct)
  case 1
  show ?case by (auto simp: maximal_run_def)
next
  case (2 x ys)
  define e where "e = run_ext x ys"
  have srt: "sorted_wrt (<) (drop e ys)"
    using "2.prems" by (simp add: sorted_wrt_drop)
  have far: "\<And>r. r \<in> set (drop e ys) \<Longrightarrow> x + int e + 2 \<le> r"
    unfolding e_def by (rule drop_run_ext_bound [OF "2.prems"])
  have "maximal_run (set (x # ys)) s L
      = ((s = x \<and> L = int e + 1) \<or> maximal_run (set (drop e ys)) s L)"
    unfolding set_split_run e_def [symmetric] by (rule maximal_run_split [OF far]) simp_all
  with "2.IH" [OF srt [unfolded e_def], of s L] show ?case
    by (auto simp: e_def)
qed

lemma runs_of_starts: "(s, L) \<in> set (runs_of xs) \<Longrightarrow> s \<in> set xs"
proof (induction xs rule: runs_of.induct)
  case 1
  then show ?case by simp
next
  case (2 x ys)
  then show ?case by (auto dest: in_set_dropD)
qed

lemma runs_of_sorted:
  "sorted_wrt (<) xs \<Longrightarrow> sorted_wrt (<) (map fst (runs_of xs))"
proof (induction xs rule: runs_of.induct)
  case 1
  show ?case by simp
next
  case (2 x ys)
  have srt: "sorted_wrt (<) (drop (run_ext x ys) ys)"
    using "2.prems" by (simp add: sorted_wrt_drop)
  have "x < s" if "(s, L) \<in> set (runs_of (drop (run_ext x ys) ys))" for s L
  proof -
    from that have "s \<in> set (drop (run_ext x ys) ys)" by (rule runs_of_starts)
    then have "s \<in> set ys" by (rule in_set_dropD)
    with "2.prems" show ?thesis by simp
  qed
  with "2.IH" [OF srt] show ?case by auto
qed

section \<open>Clusters, k-tuples and gaps\<close>

lemma expand_runs_of: "concat (map expand_run (runs_of xs)) = xs"
proof (induction xs rule: runs_of.induct)
  case 1
  show ?case by simp
next
  case (2 x ys)
  have "expand_run (x, 1 + int (run_ext x ys)) = [x..x + int (run_ext x ys)]"
    by (simp add: expand_run_def)
  also have "\<dots> = x # [x + 1..x + int (run_ext x ys)]"
    by (subst upto_rec1) simp_all
  also have "\<dots> = x # take (run_ext x ys) ys"
    by (simp only: take_run_ext)
  finally have "expand_run (x, 1 + int (run_ext x ys)) = x # take (run_ext x ys) ys" .
  with "2.IH" show ?case by simp
qed

lemma mset_concat_filter:
  "mset (concat (map f (filter P l))) + mset (concat (map f (filter (\<lambda>x. \<not> P x) l)))
     = mset (concat (map f l))"
  by (induction l) simp_all

lemma roundtrip_mset:
  assumes "distinct xs"
  shows "mset (expand_runs (find_all_clusters xs)) + mset (unclustered xs (find_all_clusters xs))
           = mset xs"
proof -
  define E where "E = expand_runs (find_all_clusters xs)"
  define N where "N = concat (map expand_run (filter (\<lambda>c. \<not> (\<lambda>(s, L). 2 \<le> L) c) (runs_of xs)))"
  have EN: "mset (E @ N) = mset xs"
    using mset_concat_filter [of expand_run "\<lambda>(s, L). 2 \<le> L" "runs_of xs"]
    by (simp add: E_def N_def expand_runs_def find_all_clusters_runs_of expand_runs_of)
  then have "distinct (E @ N)"
    using assms mset_eq_imp_distinct_iff by blast
  then have disj: "set E \<inter> set N = {}" by simp
  have "mset (filter (\<lambda>n. n \<notin> set E) xs) = filter_mset (\<lambda>n. n \<notin> set E) (mset (E @ N))"
    by (simp only: EN mset_filter)
  also have "\<dots> = mset (filter (\<lambda>n. n \<notin> set E) E) + mset (filter (\<lambda>n. n \<notin> set E) N)"
    by simp
  also have "filter (\<lambda>n. n \<notin> set E) E = []" by simp
  also have "filter (\<lambda>n. n \<notin> set E) N = N"
    using disj by (auto simp: filter_id_conv)
  finally have "mset (unclustered xs (find_all_clusters xs)) = mset N"
    by (simp add: unclustered_def E_def)
  with EN show ?thesis by (simp add: E_def)
qed

text \<open>
  C4. For every sorted sequence without duplicates, the runs returned by
  \<open>find_all_clusters\<close>, each expanded to its consecutive integers, together with the
  elements that no run covers, are the original sequence: as multisets (nothing omitted,
  nothing duplicated), and as the list itself once put in order.
\<close>

theorem find_all_clusters_roundtrip:
  "sorted_wrt (<) n_values \<Longrightarrow>
     mset (expand_runs (find_all_clusters n_values))
       + mset (unclustered n_values (find_all_clusters n_values)) = mset n_values
     \<and> sort (expand_runs (find_all_clusters n_values)
              @ unclustered n_values (find_all_clusters n_values)) = n_values"
proof -
  assume s: "sorted_wrt (<) n_values"
  then have d: "distinct n_values" and so: "sorted n_values"
    by (simp_all add: strict_sorted_iff)
  have m: "mset (expand_runs (find_all_clusters n_values))
       + mset (unclustered n_values (find_all_clusters n_values)) = mset n_values"
    by (rule roundtrip_mset [OF d])
  then have "mset n_values = mset (expand_runs (find_all_clusters n_values)
              @ unclustered n_values (find_all_clusters n_values))" by simp
  from properties_for_sort [OF this so] m show ?thesis by simp
qed

text \<open>
  C4 at the sequence 5, 6, 7, 10, 11, 13.
\<close>

theorem find_all_clusters_roundtrip_witness:
  "sorted_wrt (<) [5, 6, 7, 10, 11, 13 :: int]
   \<and> sort (expand_runs (find_all_clusters [5, 6, 7, 10, 11, 13])
          @ unclustered [5, 6, 7, 10, 11, 13] (find_all_clusters [5, 6, 7, 10, 11, 13]))
       = [5, 6, 7, 10, 11, 13]"
proof -
  have h: "sorted_wrt (<) [5, 6, 7, 10, 11, 13 :: int]" by simp
  from find_all_clusters_roundtrip [OF h] h show ?thesis by blast
qed

text \<open>
  C3. For every sorted sequence without duplicates, \<open>find_all_clusters\<close> returns exactly
  the maximal runs of length at least 2 as pairs (start, length), singletons left out, in
  the order of the input (the starts increase); on 5, 6, 7, 10, 11, 13 it returns
  (5, 3) and (10, 2).
\<close>

theorem find_all_clusters_maximal_runs:
  "sorted_wrt (<) n_values \<Longrightarrow>
     set (find_all_clusters n_values) = {(s, L). maximal_run (set n_values) s L \<and> 2 \<le> L}
     \<and> sorted_wrt (<) (map fst (find_all_clusters n_values))
     \<and> find_all_clusters [5, 6, 7, 10, 11, 13] = [(5, 3), (10, 2)]"
proof -
  assume s: "sorted_wrt (<) n_values"
  have a: "set (find_all_clusters n_values) = {(s, L). maximal_run (set n_values) s L \<and> 2 \<le> L}"
    using runs_of_set [OF s] by (auto simp: find_all_clusters_runs_of)
  have "sorted_wrt (<) (map fst (filter (\<lambda>(s, L). 2 \<le> L) (runs_of n_values)))"
    using runs_of_sorted [OF s] by (simp add: sorted_wrt_map sorted_wrt_filter)
  then have b: "sorted_wrt (<) (map fst (find_all_clusters n_values))"
    by (simp add: find_all_clusters_runs_of)
  have c: "find_all_clusters [5, 6, 7, 10, 11, 13] = [(5, 3), (10, 2)]"
    by (simp add: find_all_clusters_runs_of)
  from a b c show ?thesis by blast
qed

text \<open>
  C3 at the sequence 1, 2, 4, 8, 9, 10.
\<close>

theorem find_all_clusters_maximal_runs_witness:
  "sorted_wrt (<) [1, 2, 4, 8, 9, 10 :: int]
   \<and> set (find_all_clusters [1, 2, 4, 8, 9, 10])
       = {(s, L). maximal_run (set [1, 2, 4, 8, 9, 10]) s L \<and> 2 \<le> L}
   \<and> find_all_clusters [1, 2, 4, 8, 9, 10] = [(1, 2), (8, 3)]"
proof -
  have h: "sorted_wrt (<) [1, 2, 4, 8, 9, 10 :: int]" by simp
  have c: "find_all_clusters [1, 2, 4, 8, 9, 10] = [(1, 2), (8, 3)]"
    by (simp add: find_all_clusters_runs_of)
  from find_all_clusters_maximal_runs [OF h] h c show ?thesis by blast
qed

text \<open>
  C5. For every sorted sequence without duplicates and every \<open>k \<ge> 1\<close>,
  \<open>find_ktuples\<close> returns, in increasing order, the starts of the maximal runs whose
  length is exactly \<open>k\<close>; no element of a maximal run longer than \<open>k\<close> is returned.
\<close>

theorem find_ktuples_exact_runs:
  "sorted_wrt (<) n_values \<Longrightarrow> 1 \<le> k \<Longrightarrow>
     set (find_ktuples n_values k) = {s. maximal_run (set n_values) s k}
     \<and> sorted_wrt (<) (find_ktuples n_values k)
     \<and> (\<forall>s L j. maximal_run (set n_values) s L \<and> k < L \<and> s \<le> j \<and> j < s + L
            \<longrightarrow> j \<notin> set (find_ktuples n_values k))"
proof -
  assume s: "sorted_wrt (<) n_values" and k: "1 \<le> k"
  have a: "set (find_ktuples n_values k) = {s. maximal_run (set n_values) s k}"
    using runs_of_set [OF s] by (force simp: find_ktuples_runs_of)
  have "sorted_wrt (<) (map fst (filter (\<lambda>(s, L). L = k) (runs_of n_values)))"
    using runs_of_sorted [OF s] by (simp add: sorted_wrt_map sorted_wrt_filter)
  then have b: "sorted_wrt (<) (find_ktuples n_values k)"
    by (simp add: find_ktuples_runs_of)
  have c: "j \<notin> set (find_ktuples n_values k)"
    if m: "maximal_run (set n_values) s L" and kL: "k < L" and j: "s \<le> j" "j < s + L" for s L j
  proof
    assume "j \<in> set (find_ktuples n_values k)"
    with a have mj: "maximal_run (set n_values) j k" by simp
    from m have sub: "{s..s + L - 1} \<subseteq> set n_values" by (simp add: maximal_run_def)
    show False
    proof (cases "j = s")
      case True
      from kL k have "s + k \<in> {s..s + L - 1}" by simp
      with sub have "s + k \<in> set n_values" by blast
      with mj True show False by (simp add: maximal_run_def)
    next
      case False
      with j have "j - 1 \<in> {s..s + L - 1}" by simp
      with sub have "j - 1 \<in> set n_values" by blast
      with mj show False by (simp add: maximal_run_def)
    qed
  qed
  from a b c show ?thesis by blast
qed

text \<open>
  C5 at a sequence with a run of length 5 and a run of length 4, for \<open>k = 4\<close>: only the
  second is reported.
\<close>

theorem find_ktuples_exact_runs_witness:
  "sorted_wrt (<) [1, 2, 3, 4, 5, 8, 9, 10, 11 :: int] \<and> (1 :: int) \<le> 4
   \<and> find_ktuples [1, 2, 3, 4, 5, 8, 9, 10, 11] 4 = [8]
   \<and> set (find_ktuples [1, 2, 3, 4, 5, 8, 9, 10, 11] 4)
       = {s. maximal_run (set [1, 2, 3, 4, 5, 8, 9, 10, 11]) s 4}"
proof -
  have h: "sorted_wrt (<) [1, 2, 3, 4, 5, 8, 9, 10, 11 :: int]" by simp
  have k: "(1 :: int) \<le> 4" by simp
  have c: "find_ktuples [1, 2, 3, 4, 5, 8, 9, 10, 11] 4 = [8]"
    by (simp add: find_ktuples_runs_of)
  from find_ktuples_exact_runs [OF h k] h k c show ?thesis by blast
qed

text \<open>
  C8, as claimed: on a sequence with fewer than 2 elements the gap computation fails with
  an error instead of returning an empty gap list. On the one-element sequence 7,
  \<open>compute_gaps\<close> returns the empty list.
\<close>

theorem compute_gaps_short_counterexample: "compute_gaps [7] = []"
  by (simp add: compute_gaps_def)

text \<open>
  C8, amended: \<open>compute_gaps\<close> never fails. Its result has length \<open>len(seq) - 1\<close> (0 for
  the empty sequence), the gap emitted for index \<open>i\<close> is \<open>seq[i] - seq[i-1]\<close>, and on a
  sequence with fewer than 2 elements it is the empty list, on which the \<open>max\<close> of \<open>main\<close>
  raises Python's \<open>ValueError\<close>.
\<close>

theorem compute_gaps_total:
  "length (compute_gaps n_values) = length n_values - 1
   \<and> (\<forall>i. 1 \<le> i \<and> i < length n_values
          \<longrightarrow> compute_gaps n_values ! (i - 1) = n_values ! i - n_values ! (i - 1))
   \<and> (length n_values < 2 \<longrightarrow> compute_gaps n_values = [] \<and> max_gap n_values = Inl ValueError)"
proof -
  have a: "length (compute_gaps n_values) = length n_values - 1"
    by (simp add: compute_gaps_def)
  have b: "compute_gaps n_values ! (i - 1) = n_values ! i - n_values ! (i - 1)"
    if "1 \<le> i" "i < length n_values" for i
  proof -
    from that have "1 + (i - 1) < length n_values" by simp
    then have "[1..<length n_values] ! (i - 1) = 1 + (i - 1)" by (rule nth_upt)
    with that show ?thesis by (simp add: compute_gaps_def)
  qed
  have c: "compute_gaps n_values = [] \<and> max_gap n_values = Inl ValueError"
    if "length n_values < 2"
  proof -
    from that have "compute_gaps n_values = []"
      by (simp add: compute_gaps_def)
    then show ?thesis by (simp add: max_gap_def py_max_def)
  qed
  from a b c show ?thesis by blast
qed

text \<open>
  C8 at the sequences 5, 6, 7, 10, 11, 13 and 7.
\<close>

theorem compute_gaps_total_witness:
  "compute_gaps [5, 6, 7, 10, 11, 13] = [1, 1, 3, 1, 2]
   \<and> length (compute_gaps [5, 6, 7, 10, 11, 13]) = length [5, 6, 7, 10, 11, 13 :: int] - 1
   \<and> max_gap [5, 6, 7, 10, 11, 13] = Inr 3
   \<and> max_gap [7] = Inl ValueError"
proof -
  have g: "compute_gaps [5, 6, 7, 10, 11, 13] = [1, 1, 3, 1, 2]"
    by (simp add: compute_gaps_def upt_rec)
  have m: "max_gap [5, 6, 7, 10, 11, 13] = Inr 3"
    by (simp add: max_gap_def py_max_def g)
  have s: "length [7 :: int] < 2" by simp
  from compute_gaps_total [of "[5, 6, 7, 10, 11, 13]"] compute_gaps_total [of "[7]"] g m s
  show ?thesis by simp
qed

end
